theory Spec2Isabelle
  imports Complex_Main
begin

unbundle bit_operations_syntax

section \<open>The DHT22 driver of dht22.c\<close>

text \<open>
  The module bit-bangs one GPIO line: a single attempt wakes the sensor, measures up to
  85 pulses by busy-polling the line, shifts the data pulses into five bytes and checks
  the checksum; a polling thread retries the attempt and publishes successes into a
  cache that the public accessor reads.

  What is outside the module is input of the model: the values that successive calls of
  \<^verbatim>\<open>gpioRead\<close> return, the values of the volatile stop flag that the polling thread
  observes, and the results of \<^verbatim>\<open>pthread_create\<close> and \<^verbatim>\<open>pthread_timedjoin_np\<close>.
  The two \<^verbatim>\<open>float\<close> outputs are modelled as real numbers: the quotient by 10.0 is
  exact here, where C rounds it to the nearest \<^verbatim>\<open>float\<close>.
\<close>

subsection \<open>Constants\<close>

definition MAX_TIMINGS :: nat where
  "MAX_TIMINGS = 85"

definition MAX_READ_ATTEMPTS :: nat where
  "MAX_READ_ATTEMPTS = 5"

definition PI_HIGH :: int where
  "PI_HIGH = 1"

subsection \<open>One attempt: \<^verbatim>\<open>dht22_read_single_attempt\<close>\<close>

text \<open>
  A \<open>gpio_trace\<close> gives the value that the \<open>n\<close>-th call of \<^verbatim>\<open>gpioRead\<close> of one
  attempt returns (counted from 0). The wake signal of lines 36 to 41 only writes to the
  line and has no part in what the function computes.
\<close>

type_synonym gpio_trace = "nat \<Rightarrow> int"

text \<open>
  Lines 47 to 53, entered with \<open>counter = 0\<close>: every test of the loop condition is one
  read of the line. The result is the number of reads made so far and the counter.
  The source leaves the loop when \<open>counter == 255\<close>; the counter starts at 0 and grows
  by one, so this is the first time that \<open>255 \<le> counter\<close>, which is what makes the
  recursion total for every argument.
\<close>

function busy_poll :: "gpio_trace \<Rightarrow> int \<Rightarrow> nat \<Rightarrow> nat \<Rightarrow> nat \<times> nat" where
  "busy_poll gpio lastState n counter =
     (if gpio n = lastState then
        (if 255 \<le> counter + 1 then (n + 1, counter + 1)
         else busy_poll gpio lastState (n + 1) (counter + 1))
      else (n + 1, counter))"
  by pat_completeness auto
termination
  by (relation "measure (\<lambda>(gpio, lastState, n, counter). 255 - counter)") auto

text \<open>
  The locals of the function that live across iterations of the \<^verbatim>\<open>for\<close> loop, with
  the number of reads of the line made so far.
\<close>

record capture =
  reads :: nat
  lastState :: int
  j :: nat
  data :: "int list"

text \<open>
  \<^verbatim>\<open>int data[5]\<close> has five elements. A write to \<^verbatim>\<open>data[j / 8]\<close> with \<open>j / 8 \<ge> 5\<close> is
  outside the array: undefined behaviour in C, a fault here.
\<close>

datatype fault = ArrayOutOfBounds

definition capture_init :: capture where
  "capture_init = \<lparr>reads = 0, lastState = PI_HIGH, j = 0, data = [0, 0, 0, 0, 0]\<rparr>"

text \<open>Lines 61 to 68: shift one bit into \<^verbatim>\<open>data[j / 8]\<close>.\<close>

definition store_bit :: "nat \<Rightarrow> capture \<Rightarrow> fault + capture" where
  "store_bit counter s =
     (if j s div 8 < length (data s) then
        let d = push_bit 1 (data s ! (j s div 8));
            d' = (if 25 < counter then d OR 1 else d)
        in Inr (s\<lparr>data := (data s)[j s div 8 := d'], j := j s + 1\<rparr>)
      else Inl ArrayOutOfBounds)"

text \<open>Lines 44 to 70, from iteration \<open>i\<close> on.\<close>

function read_loop :: "gpio_trace \<Rightarrow> nat \<Rightarrow> capture \<Rightarrow> fault + capture" where
  "read_loop gpio i s =
     (if i < MAX_TIMINGS then
        (case busy_poll gpio (lastState s) (reads s) 0 of
           (n, counter) \<Rightarrow>
             let s1 = s\<lparr>reads := n + 1, lastState := gpio n\<rparr> in
             if counter = 255 then Inr s1
             else if 4 \<le> i \<and> i mod 2 = 0 then
               (case store_bit counter s1 of
                  Inl f \<Rightarrow> Inl f
                | Inr s2 \<Rightarrow> read_loop gpio (i + 1) s2)
             else read_loop gpio (i + 1) s1)
      else Inr s)"
  by pat_completeness auto
termination
  by (relation "measure (\<lambda>(gpio, i, s). MAX_TIMINGS - i)") auto

text \<open>What the function hands back: the return code and the two output parameters.\<close>

record attempt_result =
  rc :: int
  temperature :: real
  humidity :: real

text \<open>
  Lines 72 to 89. Both outputs are set to 0 on entry (lines 32 and 33) and written again
  only on success. The last \<^verbatim>\<open>return 2\<close> of the source follows an \<^verbatim>\<open>if\<close> whose two
  branches both return, so no path reaches it.
\<close>

definition verify :: "capture \<Rightarrow> attempt_result" where
  "verify s =
     (let d = data s in
      if 40 \<le> j s \<and> d ! 4 = (d ! 0 + d ! 1 + d ! 2 + d ! 3) AND 255 then
        let h = real_of_int (push_bit 8 (d ! 0) + d ! 1) / 10;
            c = real_of_int (push_bit 8 (d ! 2 AND 127) + d ! 3) / 10;
            c' = (if d ! 2 AND 128 \<noteq> 0 then - c else c)
        in \<lparr>rc = 0, temperature = c', humidity = h\<rparr>
      else \<lparr>rc = 1, temperature = 0, humidity = 0\<rparr>)"

definition dht22_read_single_attempt :: "gpio_trace \<Rightarrow> fault + attempt_result" where
  "dht22_read_single_attempt gpio =
     (case read_loop gpio 0 capture_init of
        Inl f \<Rightarrow> Inl f
      | Inr s \<Rightarrow> Inr (verify s))"

declare busy_poll.simps [simp del] read_loop.simps [simp del]

subsection \<open>Module state and the public functions\<close>

text \<open>
  The globals of lines 17 to 23. The mutex only makes the three writes of a publication
  one step, which they are here. \<open>spawned\<close> and \<open>cancelled\<close> are not variables of the
  source: they count the polling threads that \<^verbatim>\<open>pthread_create\<close> has started and the
  calls of \<^verbatim>\<open>pthread_cancel\<close>, so that starting and killing a thread is visible in
  the state.
\<close>

record module_state =
  g_temperature_c :: real
  g_humidity :: real
  g_data_available :: int
  g_gpioPin :: int
  g_terminate_thread :: int
  spawned :: nat
  cancelled :: nat

definition module_init :: module_state where
  "module_init =
     \<lparr>g_temperature_c = 0, g_humidity = 0, g_data_available = 0, g_gpioPin = - 1,
      g_terminate_thread = 0, spawned = 0, cancelled = 0\<rparr>"

text \<open>
  Lines 145 to 164. \<open>create_rc\<close> is what \<^verbatim>\<open>pthread_create\<close> returns, 0 when the thread
  was started.
\<close>

definition dht22_start_polling :: "int \<Rightarrow> int \<Rightarrow> module_state \<Rightarrow> int \<times> module_state" where
  "dht22_start_polling gpioPin create_rc s =
     (if g_gpioPin s \<noteq> - 1 then (0, s)
      else
        let s1 = s\<lparr>g_gpioPin := gpioPin, g_terminate_thread := 0\<rparr> in
        if create_rc \<noteq> 0 then (- 1, s1\<lparr>g_gpioPin := - 1\<rparr>)
        else (0, s1\<lparr>spawned := spawned s1 + 1\<rparr>))"

text \<open>
  Lines 166 to 177. The two output parameters keep the caller's values when the function
  returns 1.
\<close>

definition dht22_get_last_valid_reading :: "module_state \<Rightarrow> real \<times> real \<Rightarrow> int \<times> real \<times> real" where
  "dht22_get_last_valid_reading s out =
     (if g_data_available s = 0 then (1, out)
      else (0, g_temperature_c s, g_humidity s))"

text \<open>
  Lines 194 to 220. \<open>join_rc\<close> is what \<^verbatim>\<open>pthread_timedjoin_np\<close> returns: 0 after a
  clean end of the thread, otherwise the thread is cancelled. The calls of
  \<^verbatim>\<open>gpioTerminate\<close> and \<^verbatim>\<open>printf\<close> act on the GPIO library and the console, not on
  the module state.
\<close>

definition dht22_terminate :: "int \<Rightarrow> module_state \<Rightarrow> module_state" where
  "dht22_terminate join_rc s =
     (if g_gpioPin s \<noteq> - 1 then
        let s1 = s\<lparr>g_terminate_thread := 1\<rparr>;
            s2 = (if join_rc = 0 then s1 else s1\<lparr>cancelled := cancelled s1 + 1\<rparr>)
        in s2\<lparr>g_gpioPin := - 1, g_data_available := 0\<rparr>
      else s)"

subsection \<open>One poll cycle of \<^verbatim>\<open>dht22_polling_thread\<close>\<close>

text \<open>
  What one cycle does, in order: a read of the stop flag with the value seen, a call of
  \<^verbatim>\<open>dht22_read_single_attempt\<close> with the value of \<^verbatim>\<open>attempt\<close> and the return code, a
  publication into the cache, a call of \<^verbatim>\<open>usleep\<close> with its argument.
\<close>

datatype event =
  Check_stop int
| Attempt nat int
| Publish real real
| Usleep int

definition prepend :: "event list \<Rightarrow> fault + module_state \<times> event list \<Rightarrow> fault + module_state \<times> event list" where
  "prepend evs r = (case r of Inl f \<Rightarrow> Inl f | Inr (s, evs') \<Rightarrow> Inr (s, evs @ evs'))"

text \<open>
  Lines 106 to 131, from the test of the loop condition with \<^verbatim>\<open>attempt\<close> at the given
  value. The flag \<^verbatim>\<open>g_terminate_thread\<close> is volatile and written by another thread:
  \<open>flag k\<close> is the value that the \<open>k\<close>-th read of it in this cycle sees, and \<open>line a\<close> is
  what the GPIO line does during attempt \<open>a\<close>. Both \<^verbatim>\<open>&&\<close> read the flag only when
  their left operand holds. The result is the module state after the loop and what
  the loop did. The message printed on success is left out. The thread repeats such
  cycles, each followed by the interval sleep of lines 135 to 137, until it sees the
  stop flag.
\<close>

function retry_loop ::
  "(nat \<Rightarrow> int) \<Rightarrow> (nat \<Rightarrow> gpio_trace) \<Rightarrow> nat \<Rightarrow> nat \<Rightarrow> module_state \<Rightarrow> fault + module_state \<times> event list" where
  "retry_loop flag line attempt k s =
     (if attempt < MAX_READ_ATTEMPTS then
        (if flag k \<noteq> 0 then Inr (s, [Check_stop (flag k)])
         else
           (case dht22_read_single_attempt (line attempt) of
              Inl f \<Rightarrow> Inl f
            | Inr r \<Rightarrow>
                if rc r = 0 then
                  Inr (s\<lparr>g_temperature_c := temperature r, g_humidity := humidity r,
                           g_data_available := 1\<rparr>,
                       [Check_stop (flag k), Attempt attempt (rc r),
                        Publish (temperature r) (humidity r)])
                else if attempt < MAX_READ_ATTEMPTS - 1 then
                  (if flag (k + 1) = 0 then
                     prepend [Check_stop (flag k), Attempt attempt (rc r),
                              Check_stop (flag (k + 1)), Usleep 200000]
                       (retry_loop flag line (attempt + 1) (k + 2) s)
                   else
                     prepend [Check_stop (flag k), Attempt attempt (rc r),
                              Check_stop (flag (k + 1))]
                       (retry_loop flag line (attempt + 1) (k + 2) s))
                else
                  prepend [Check_stop (flag k), Attempt attempt (rc r)]
                    (retry_loop flag line (attempt + 1) (k + 1) s)))
      else Inr (s, []))"
  by pat_completeness auto
termination
  by (relation "measure (\<lambda>(flag, line, attempt, k, s). MAX_READ_ATTEMPTS - attempt)") auto

declare retry_loop.simps [simp del]

definition poll_cycle ::
  "(nat \<Rightarrow> int) \<Rightarrow> (nat \<Rightarrow> gpio_trace) \<Rightarrow> module_state \<Rightarrow> fault + module_state \<times> event list" where
  "poll_cycle flag line s = retry_loop flag line 0 0 s"

text \<open>
  The states that the module can be in: the public functions run from the initial
  values of the globals, and the polling thread runs its cycles while a pin is
  configured.
\<close>

inductive reachable :: "module_state \<Rightarrow> bool" where
  reach_init: "reachable module_init"
| reach_start: "reachable s \<Longrightarrow> reachable (snd (dht22_start_polling gpioPin create_rc s))"
| reach_poll: "reachable s \<Longrightarrow> g_gpioPin s \<noteq> - 1 \<Longrightarrow> poll_cycle flag line s = Inr (s', evs) \<Longrightarrow> reachable s'"
| reach_terminate: "reachable s \<Longrightarrow> reachable (dht22_terminate join_rc s)"

section \<open>Vocabulary of the specification\<close>

subsection \<open>Pulses, bits and bytes\<close>

text \<open>
  The captured pulse sequence of one attempt: the counters that the iterations of the
  capture loop measure, up to the first one that reaches the cap of 255 or up to 85.
\<close>

function captured_from :: "gpio_trace \<Rightarrow> nat \<Rightarrow> nat \<Rightarrow> int \<Rightarrow> nat list" where
  "captured_from gpio i n ls =
     (if i < MAX_TIMINGS then
        (case busy_poll gpio ls n 0 of
           (n', counter) \<Rightarrow>
             if counter = 255 then []
             else counter # captured_from gpio (i + 1) (n' + 1) (gpio n'))
      else [])"
  by pat_completeness auto
termination
  by (relation "measure (\<lambda>(gpio, i, n, ls). MAX_TIMINGS - i)") auto

declare captured_from.simps [simp del]

definition captured :: "gpio_trace \<Rightarrow> nat list" where
  "captured gpio = captured_from gpio 0 0 PI_HIGH"

fun every_second :: "'a list \<Rightarrow> 'a list" where
  "every_second (x # y # xs) = x # every_second xs"
| "every_second [x] = [x]"
| "every_second [] = []"

text \<open>
  The data bits of a pulse sequence: the first four pulses are dropped, then every
  second pulse is a bit, 1 when its duration is above 25.
\<close>

definition data_bits :: "nat list \<Rightarrow> bool list" where
  "data_bits ps = map (\<lambda>d. 25 < d) (every_second (drop 4 ps))"

text \<open>The value of a run of bits, most significant bit first.\<close>

definition byte_of :: "bool list \<Rightarrow> int" where
  "byte_of bs = foldl (\<lambda>v b. 2 * v + (if b then 1 else 0)) 0 bs"

text \<open>Five bytes of eight bits each; a byte that has received no bit is 0.\<close>

definition frame_bytes :: "bool list \<Rightarrow> int list" where
  "frame_bytes bs = map (\<lambda>k. byte_of (take 8 (drop (8 * k) bs))) [0..<5]"

text \<open>The same bits, counted by the loop index \<open>i\<close> as the source does.\<close>

fun bits_from :: "nat \<Rightarrow> nat list \<Rightarrow> bool list" where
  "bits_from i [] = []"
| "bits_from i (c # cs) =
     (if 4 \<le> i \<and> i mod 2 = 0 then [25 < c] else []) @ bits_from (i + 1) cs"

text \<open>
  What the capture loop makes of a sequence of bits: up to 40 bits are in the five
  bytes, a 41st bit is written outside the array.
\<close>

definition decoded :: "bool list \<Rightarrow> fault + capture \<Rightarrow> bool" where
  "decoded bs r =
     (case r of
        Inr s' \<Rightarrow> length bs \<le> 40 \<and> j s' = length bs \<and> data s' = frame_bytes bs
      | Inl f \<Rightarrow> 40 < length bs)"

subsection \<open>Properties of the events of a poll cycle\<close>


fun is_success :: "event \<Rightarrow> bool" where
  "is_success (Attempt a r) = (r = 0)"
| "is_success e = False"












section \<open>Inputs for testing\<close>

text \<open>
  \<open>wave cs l\<close> is a line on which the capture loop, entered with \<open>lastState = l\<close>,
  measures the counters \<open>cs\<close>: the line holds its level for \<open>c\<close> reads, has changed at
  the read that ends the inner loop and at the read that sets \<open>lastState\<close>, and so on;
  after the last pulse it does not change any more.
\<close>

fun wave :: "nat list \<Rightarrow> int \<Rightarrow> gpio_trace" where
  "wave [] l n = l"
| "wave (c # cs) l n =
     (if n < c then l else if n < c + 2 then 1 - l else wave cs (1 - l) (n - (c + 2)))"

text \<open>
  The pulses of a sensor that answers with the given bytes: three pulses of the
  handshake, a low and a high pulse for each bit (high for 30 reads for a 1, for 5 reads
  for a 0), and the low pulse that ends the frame.
\<close>

definition frame_pulses :: "int list \<Rightarrow> nat list" where
  "frame_pulses bytes =
     [10, 40, 40] @
     concat (map (\<lambda>b. concat (map (\<lambda>k. [10, if bit b (7 - k) then 30 else 5]) [0..<8])) bytes) @
     [10]"

text \<open>
  Module states: after a start on pin 4, after the thread has then published a reading
  of 35.1 degrees and 65.2 percent, and after a terminate that followed.
\<close>

definition running_state :: module_state where
  "running_state = snd (dht22_start_polling 4 0 module_init)"

definition published_state :: module_state where
  "published_state =
     running_state\<lparr>g_temperature_c := 351 / 10, g_humidity := 652 / 10, g_data_available := 1\<rparr>"


section \<open>Facts about the capture loop\<close>

subsection \<open>Shifting a bit into the frame\<close>

lemma byte_of_snoc: "byte_of (bs @ [b]) = 2 * byte_of bs + (if b then 1 else 0)"
  by (simp add: byte_of_def)

lemma length_frame_bytes [simp]: "length (frame_bytes bs) = 5"
  by (simp add: frame_bytes_def)

lemma nth_frame_bytes: "k < 5 \<Longrightarrow> frame_bytes bs ! k = byte_of (take 8 (drop (8 * k) bs))"
  unfolding frame_bytes_def by (simp del: upt_Suc)

lemma frame_bytes_snoc:
  assumes "length bs < 40"
  shows "frame_bytes (bs @ [b]) =
         (frame_bytes bs)[length bs div 8 := 2 * (frame_bytes bs ! (length bs div 8)) + (if b then 1 else 0)]"
proof (rule nth_equalityI)
  show "length (frame_bytes (bs @ [b])) = length ((frame_bytes bs)[length bs div 8 := 2 * (frame_bytes bs ! (length bs div 8)) + (if b then 1 else 0)])"
    by simp
next
  fix k assume "k < length (frame_bytes (bs @ [b]))"
  then have k: "k < 5" by simp
  from assms have q: "length bs div 8 < 5" by simp
  consider "k < length bs div 8" | "k = length bs div 8" | "length bs div 8 < k" by linarith
  then show "frame_bytes (bs @ [b]) ! k =
         (frame_bytes bs)[length bs div 8 := 2 * (frame_bytes bs ! (length bs div 8)) + (if b then 1 else 0)] ! k"
  proof cases
    case 1
    then have "8 * k + 8 \<le> length bs" by simp
    then show ?thesis using 1 k by (simp add: nth_frame_bytes)
  next
    case 2
    have "8 * k \<le> length bs" "length bs - 8 * k < 8" using 2 by simp_all
    then show ?thesis using 2 k by (simp add: nth_frame_bytes byte_of_snoc)
  next
    case 3
    then have "length bs + 1 \<le> 8 * k" by simp
    then show ?thesis using 3 k by (simp add: nth_frame_bytes)
  qed
qed

lemma store_bit_ok:
  assumes "j s = length bs" "data s = frame_bytes bs" "length bs < 40"
  shows "store_bit c s = Inr (s\<lparr>data := frame_bytes (bs @ [25 < c]), j := length (bs @ [25 < c])\<rparr>)"
proof -
  from assms have "j s div 8 < length (data s)" by simp
  then show ?thesis
    using assms by (simp add: store_bit_def Let_def frame_bytes_snoc or_one_eq push_bit_eq_mult mult.commute)
qed

lemma store_bit_full:
  assumes "j s = 40" "length (data s) = 5"
  shows "store_bit c s = Inl ArrayOutOfBounds"
  using assms by (simp add: store_bit_def)

subsection \<open>The invariant of the capture loop\<close>

text \<open>
  When \<open>j\<close> bits have been taken and \<open>data\<close> holds their bytes, the rest of the loop
  adds the data bits of the pulses still to come.
\<close>

lemma read_loop_decoded:
  "j s = length bs \<Longrightarrow> data s = frame_bytes bs \<Longrightarrow> length bs \<le> 40 \<Longrightarrow>
   decoded (bs @ bits_from i (captured_from gpio i (reads s) (lastState s))) (read_loop gpio i s)"
proof (induction gpio i s arbitrary: bs rule: read_loop.induct)
  case (1 gpio i s)
  show ?case
  proof (cases "i < MAX_TIMINGS")
    case False
    then have "read_loop gpio i s = Inr s" "captured_from gpio i (reads s) (lastState s) = []"
      by (simp_all add: read_loop.simps captured_from.simps)
    then show ?thesis using "1.prems" by (simp add: decoded_def)
  next
    case True
    obtain n counter where bp: "busy_poll gpio (lastState s) (reads s) 0 = (n, counter)"
      by (cases "busy_poll gpio (lastState s) (reads s) 0")
    define s1 where "s1 = s\<lparr>reads := n + 1, lastState := gpio n\<rparr>"
    have s1: "j s1 = length bs" "data s1 = frame_bytes bs" "reads s1 = n + 1" "lastState s1 = gpio n"
      using "1.prems" by (simp_all add: s1_def)
    show ?thesis
    proof (cases "counter = 255")
      case True
      have "read_loop gpio i s = Inr s1"
        using \<open>i < MAX_TIMINGS\<close> bp True by (simp add: read_loop.simps [of gpio i s] s1_def)
      moreover have "captured_from gpio i (reads s) (lastState s) = []"
        using \<open>i < MAX_TIMINGS\<close> bp True by (simp add: captured_from.simps [of gpio i])
      ultimately show ?thesis using s1 "1.prems" by (simp add: decoded_def)
    next
      case False
      have cap: "captured_from gpio i (reads s) (lastState s) =
                 counter # captured_from gpio (i + 1) (n + 1) (gpio n)"
        using \<open>i < MAX_TIMINGS\<close> bp False by (simp add: captured_from.simps [of gpio i])
      show ?thesis
      proof (cases "4 \<le> i \<and> i mod 2 = 0")
        case nodata: False
        have rl: "read_loop gpio i s = read_loop gpio (i + 1) s1"
          using \<open>i < MAX_TIMINGS\<close> bp False nodata by (auto simp add: read_loop.simps [of gpio i s] s1_def Let_def)
        have "decoded (bs @ bits_from (i + 1) (captured_from gpio (i + 1) (reads s1) (lastState s1)))
                (read_loop gpio (i + 1) s1)"
          using "1.IH"(2) [OF \<open>i < MAX_TIMINGS\<close> bp [symmetric] s1_def False nodata s1(1) s1(2) "1.prems"(3)] .
        then show ?thesis using rl cap nodata s1 by auto
      next
        case isdata: True
        show ?thesis
        proof (cases "length bs < 40")
          case True
          define s2 where "s2 = s1\<lparr>data := frame_bytes (bs @ [25 < counter]), j := length (bs @ [25 < counter])\<rparr>"
          have sb: "store_bit counter s1 = Inr s2"
            using store_bit_ok [OF s1(1) s1(2) True] by (simp add: s2_def)
          have rl: "read_loop gpio i s = read_loop gpio (i + 1) s2"
            using \<open>i < MAX_TIMINGS\<close> bp False isdata sb
            by (simp add: read_loop.simps [of gpio i s] s1_def Let_def)
          have s2: "j s2 = length (bs @ [25 < counter])" "data s2 = frame_bytes (bs @ [25 < counter])"
            "reads s2 = n + 1" "lastState s2 = gpio n" "length (bs @ [25 < counter]) \<le> 40"
            using s1 True by (simp_all add: s2_def)
          have "decoded ((bs @ [25 < counter]) @ bits_from (i + 1) (captured_from gpio (i + 1) (reads s2) (lastState s2)))
                (read_loop gpio (i + 1) s2)"
            using "1.IH"(1) [OF \<open>i < MAX_TIMINGS\<close> bp [symmetric] s1_def False isdata sb s2(1) s2(2) s2(5)] .
          then show ?thesis using rl cap isdata s2 by auto
        next
          case full: False
          with "1.prems" have "length bs = 40" by simp
          then have sb: "store_bit counter s1 = Inl ArrayOutOfBounds"
            using s1 by (intro store_bit_full) simp_all
          have rl: "read_loop gpio i s = Inl ArrayOutOfBounds"
            using \<open>i < MAX_TIMINGS\<close> bp False isdata sb
            by (simp add: read_loop.simps [of gpio i s] s1_def Let_def)
          then show ?thesis using cap isdata \<open>length bs = 40\<close> by (auto simp add: decoded_def)
        qed
      qed
    qed
  qed
qed

subsection \<open>Data bits by loop index and by position\<close>

lemma every_second_bits: "4 \<le> i \<Longrightarrow> i mod 2 = 0 \<Longrightarrow> bits_from i ps = map (\<lambda>d. 25 < d) (every_second ps)"
proof (induction ps arbitrary: i rule: every_second.induct)
  case (1 x y xs)
  from 1 have "4 \<le> i + 2" "(i + 2) mod 2 = 0" by simp_all
  from "1.IH" [OF this] 1(2,3) show ?case by (simp add: mod_Suc)
qed simp_all

lemma bits_from_data_bits: "bits_from 0 ps = data_bits ps"
proof -
  have skip: "bits_from i qs = bits_from (Suc i) (drop 1 qs)" if "i < 4" for i qs
    using that by (cases qs) simp_all
  have "bits_from 0 ps = bits_from (Suc 0) (drop 1 ps)"
    by (rule skip) simp
  also have "\<dots> = bits_from (Suc (Suc 0)) (drop 1 (drop 1 ps))"
    by (rule skip) simp
  also have "\<dots> = bits_from (Suc (Suc (Suc 0))) (drop 1 (drop 1 (drop 1 ps)))"
    by (rule skip) simp
  also have "\<dots> = bits_from (Suc (Suc (Suc (Suc 0)))) (drop 1 (drop 1 (drop 1 (drop 1 ps))))"
    by (rule skip) simp
  also have "\<dots> = bits_from 4 (drop 4 ps)"
    by (simp add: eval_nat_numeral)
  finally show ?thesis by (simp add: every_second_bits data_bits_def)
qed

lemma capture_init_frame: "j capture_init = length ([] :: bool list)" "data capture_init = frame_bytes []"
  by (simp_all add: capture_init_def frame_bytes_def byte_of_def upt_rec [of _ 5] numeral_eq_Suc)

lemma read_loop_captured:
  "decoded (data_bits (captured gpio)) (read_loop gpio 0 capture_init)"
  using read_loop_decoded [OF capture_init_frame, where gpio = gpio and i = 0]
  by (simp add: bits_from_data_bits captured_def capture_init_def)

subsection \<open>Ranges\<close>

lemma byte_of_bounds: "0 \<le> byte_of bs \<and> byte_of bs < 2 ^ length bs"
proof (induction bs rule: rev_induct)
  case Nil
  show ?case by (simp add: byte_of_def)
next
  case (snoc b bs)
  then show ?case by (simp add: byte_of_snoc)
qed

lemma frame_bytes_range:
  assumes "x \<in> set (frame_bytes bs)"
  shows "0 \<le> x \<and> x < 256"
proof -
  from assms obtain k where x: "x = byte_of (take 8 (drop (8 * k) bs))"
    by (auto simp add: frame_bytes_def)
  have "byte_of (take 8 (drop (8 * k) bs)) < 2 ^ length (take 8 (drop (8 * k) bs))"
    using byte_of_bounds by blast
  also have "\<dots> \<le> 2 ^ 8"
    by (rule power_increasing) simp_all
  finally show ?thesis using x byte_of_bounds [of "take 8 (drop (8 * k) bs)"] by simp
qed

lemma captured_from_length: "length (captured_from gpio i n ls) \<le> MAX_TIMINGS - i"
proof (induction gpio i n ls rule: captured_from.induct)
  case (1 gpio i n ls)
  show ?case
  proof (cases "i < MAX_TIMINGS")
    case False
    then show ?thesis by (simp add: captured_from.simps [of gpio i])
  next
    case True
    obtain n' counter where bp: "busy_poll gpio ls n 0 = (n', counter)"
      by (cases "busy_poll gpio ls n 0")
    show ?thesis
    proof (cases "counter = 255")
      case True
      then show ?thesis using bp \<open>i < MAX_TIMINGS\<close> by (simp add: captured_from.simps [of gpio i])
    next
      case False
      from "1.IH" [OF True bp [symmetric] False] True bp False
      show ?thesis by (simp add: captured_from.simps [of gpio i n ls])
    qed
  qed
qed

lemma length_every_second: "length (every_second xs) = (length xs + 1) div 2"
  by (induction xs rule: every_second.induct) simp_all

lemma data_bits_length: "length (data_bits (captured gpio)) \<le> 41"
proof -
  have "length (captured gpio) \<le> 85"
    using captured_from_length [of gpio 0 0 PI_HIGH] by (simp add: captured_def MAX_TIMINGS_def)
  then show ?thesis by (simp add: data_bits_def length_every_second)
qed

lemma shift_or:
  fixes a b :: int
  assumes "0 \<le> b" "b < 256"
  shows "push_bit 8 a + b = push_bit 8 a OR b"
proof -
  have b: "take_bit 8 b = b"
    using assms by (simp add: take_bit_int_eq_self)
  have "push_bit 8 a AND take_bit 8 b = 0"
    by (rule bit_eqI) (simp add: bit_simps)
  then show ?thesis
    using b by (simp add: disjunctive_add_eq_or)
qed

lemma bit7: "((b::int) AND 128 \<noteq> 0) = bit b 7"
  using and_exp_eq_0_iff_not_bit [of b 7] by simp

subsection \<open>The pulses of a test line\<close>

text \<open>
  The inner loop entered with a counter below 255 never counts beyond 255: the test
  \<open>255 \<le> counter + 1\<close> of the model holds exactly when \<open>counter + 1 = 255\<close>.
\<close>

lemma busy_poll_counter:
  "counter < 255 \<Longrightarrow> snd (busy_poll gpio ls n counter) \<le> 255"
proof (induction gpio ls n counter rule: busy_poll.induct)
  case (1 gpio ls n counter)
  show ?case
  proof (cases "gpio n = ls \<and> \<not> 255 \<le> counter + 1")
    case True
    then have "snd (busy_poll gpio ls (n + 1) (counter + 1)) \<le> 255"
      by (intro "1.IH") simp_all
    then show ?thesis using True by (simp add: busy_poll.simps [of gpio ls n])
  next
    case False
    then show ?thesis using "1.prems" by (auto simp add: busy_poll.simps [of gpio ls n])
  qed
qed

lemma busy_poll_change:
  "(\<forall>k<m. gpio (n + k) = ls) \<Longrightarrow> gpio (n + m) \<noteq> ls \<Longrightarrow> counter + m < 255 \<Longrightarrow>
   busy_poll gpio ls n counter = (n + m + 1, counter + m)"
proof (induction m arbitrary: n counter)
  case 0
  then show ?case by (simp add: busy_poll.simps [of gpio ls n])
next
  case (Suc m)
  from Suc.prems(1) have here: "gpio n = ls" by (metis add.right_neutral zero_less_Suc)
  have "\<forall>k<m. gpio (Suc n + k) = ls"
    using Suc.prems(1) by (metis Suc_less_eq add_Suc_shift)
  moreover have "gpio (Suc n + m) \<noteq> ls" "Suc counter + m < 255"
    using Suc.prems by simp_all
  ultimately have "busy_poll gpio ls (Suc n) (Suc counter) = (Suc n + m + 1, Suc counter + m)"
    by (rule Suc.IH)
  then show ?case using here Suc.prems(3) by (simp add: busy_poll.simps [of gpio ls n])
qed

lemma busy_poll_cap:
  "(\<forall>k<255 - counter. gpio (n + k) = ls) \<Longrightarrow> counter < 255 \<Longrightarrow>
   snd (busy_poll gpio ls n counter) = 255"
proof (induction gpio ls n counter rule: busy_poll.induct)
  case (1 gpio ls n counter)
  from "1.prems" have here: "gpio n = ls" by (metis add.right_neutral zero_less_diff)
  show ?case
  proof (cases "255 \<le> counter + 1")
    case True
    then show ?thesis using here "1.prems"(2) by (simp add: busy_poll.simps [of gpio ls n])
  next
    case False
    have "\<forall>k<255 - (counter + 1). gpio (n + 1 + k) = ls"
    proof (intro allI impI)
      fix k assume "k < 255 - (counter + 1)"
      then have "Suc k < 255 - counter" by simp
      with "1.prems"(1) have "gpio (n + Suc k) = ls" by blast
      then show "gpio (n + 1 + k) = ls" by simp
    qed
    from "1.IH" [OF here False this] False
    show ?thesis using here by (simp add: busy_poll.simps [of gpio ls n])
  qed
qed

text \<open>Every list of counters below the cap is what the loop captures on its wave.\<close>

lemma captured_from_wave:
  "(\<forall>k. gpio (n + k) = wave cs l k) \<Longrightarrow> (\<forall>c\<in>set cs. c < 255) \<Longrightarrow>
   captured_from gpio i n l = take (MAX_TIMINGS - i) cs"
proof (induction cs arbitrary: i n l)
  case Nil
  show ?case
  proof (cases "i < MAX_TIMINGS")
    case True
    have "snd (busy_poll gpio l n 0) = 255"
      using Nil by (intro busy_poll_cap) simp_all
    then show ?thesis using True
      by (cases "busy_poll gpio l n 0") (simp add: captured_from.simps [of gpio i])
  next
    case False
    then show ?thesis by (simp add: captured_from.simps [of gpio i])
  qed
next
  case (Cons c cs)
  show ?case
  proof (cases "i < MAX_TIMINGS")
    case False
    then show ?thesis by (simp add: captured_from.simps [of gpio i])
  next
    case True
    have c: "c < 255" using Cons.prems(2) by simp
    have "\<forall>k<c. gpio (n + k) = l"
      using Cons.prems(1) by simp
    moreover have "gpio (n + c) \<noteq> l"
    proof -
      have "1 - l \<noteq> l" by presburger
      moreover have "gpio (n + c) = 1 - l"
        using Cons.prems(1) [rule_format, of c] by simp
      ultimately show ?thesis by simp
    qed
    ultimately have bp: "busy_poll gpio l n 0 = (n + c + 1, c)"
      using busy_poll_change [of c gpio n l 0] c by simp
    have nxt: "gpio (n + c + 1) = 1 - l"
      using Cons.prems(1) [rule_format, of "c + 1"] by simp
    have "\<forall>k. gpio (n + c + 1 + 1 + k) = wave cs (1 - l) k"
    proof
      fix k
      have "gpio (n + (c + 2 + k)) = wave (c # cs) l (c + 2 + k)"
        using Cons.prems(1) by blast
      then show "gpio (n + c + 1 + 1 + k) = wave cs (1 - l) k"
        by (simp add: add.assoc)
    qed
    then have "captured_from gpio (i + 1) (n + c + 1 + 1) (1 - l) = take (MAX_TIMINGS - (i + 1)) cs"
      using Cons.prems(2) by (intro Cons.IH) simp_all
    then show ?thesis using True bp c nxt
      by (simp add: captured_from.simps [of gpio i n l] take_Cons')
  qed
qed

lemma captured_wave:
  assumes "\<forall>c\<in>set cs. c < 255" "length cs \<le> MAX_TIMINGS"
  shows "captured (wave cs PI_HIGH) = cs"
  using captured_from_wave [of "wave cs PI_HIGH" 0 cs PI_HIGH 0] assms
  by (simp add: captured_def)

section \<open>The decoder\<close>

lemma attempt_cases:
  "(length (data_bits (captured gpio)) \<le> 40 \<and>
      (\<exists>s. read_loop gpio 0 capture_init = Inr s \<and> j s = length (data_bits (captured gpio)) \<and>
           data s = frame_bytes (data_bits (captured gpio)))) \<or>
   (length (data_bits (captured gpio)) = 41 \<and> read_loop gpio 0 capture_init = Inl ArrayOutOfBounds)"
proof (cases "read_loop gpio 0 capture_init")
  case (Inr s)
  then show ?thesis using read_loop_captured [of gpio] by (simp add: decoded_def)
next
  case (Inl f)
  then have "length (data_bits (captured gpio)) = 41"
    using read_loop_captured [of gpio] data_bits_length [of gpio] by (simp add: decoded_def)
  moreover have "f = ArrayOutOfBounds"
    by (cases f) simp
  ultimately show ?thesis using Inl by simp
qed

lemma attempt_short:
  assumes "length (data_bits (captured gpio)) < 40"
  shows "dht22_read_single_attempt gpio = Inr \<lparr>rc = 1, temperature = 0, humidity = 0\<rparr>"
  using attempt_cases [of gpio] assms
  by (auto simp add: dht22_read_single_attempt_def verify_def Let_def)

lemma attempt_mismatch:
  assumes "length (data_bits (captured gpio)) = 40"
    and "frame_bytes (data_bits (captured gpio)) ! 4 \<noteq>
         (frame_bytes (data_bits (captured gpio)) ! 0 + frame_bytes (data_bits (captured gpio)) ! 1 +
          frame_bytes (data_bits (captured gpio)) ! 2 + frame_bytes (data_bits (captured gpio)) ! 3) AND 255"
  shows "dht22_read_single_attempt gpio = Inr \<lparr>rc = 1, temperature = 0, humidity = 0\<rparr>"
  using attempt_cases [of gpio] assms
  by (auto simp add: dht22_read_single_attempt_def verify_def Let_def)

lemma attempt_overflow:
  assumes "length (data_bits (captured gpio)) = 41"
  shows "dht22_read_single_attempt gpio = Inl ArrayOutOfBounds"
  using attempt_cases [of gpio] assms
  by (auto simp add: dht22_read_single_attempt_def)

lemma attempt_valid:
  assumes "length (data_bits (captured gpio)) = 40"
    and "frame_bytes (data_bits (captured gpio)) = [b0, b1, b2, b3, b4]"
    and "b4 = (b0 + b1 + b2 + b3) AND 255"
  shows "dht22_read_single_attempt gpio =
         Inr \<lparr>rc = 0,
              temperature =
                (if bit b2 7 then - (real_of_int (push_bit 8 (b2 AND 127) OR b3) / 10)
                 else real_of_int (push_bit 8 (b2 AND 127) OR b3) / 10),
              humidity = real_of_int (push_bit 8 b0 OR b1) / 10\<rparr>"
proof -
  from attempt_cases [of gpio] assms(1,2) obtain s where
    s: "read_loop gpio 0 capture_init = Inr s" "j s = 40" "data s = [b0, b1, b2, b3, b4]"
    by auto
  have "b1 \<in> set (frame_bytes (data_bits (captured gpio)))"
       "b3 \<in> set (frame_bytes (data_bits (captured gpio)))"
    by (simp_all add: assms(2))
  then have r: "0 \<le> b1" "b1 < 256" "0 \<le> b3" "b3 < 256"
    using frame_bytes_range by blast+
  show ?thesis
    using s assms(3) shift_or [OF r(1,2), of b0] shift_or [OF r(3,4), of "b2 AND 127"]
    by (simp add: dht22_read_single_attempt_def verify_def Let_def bit7)
qed

lemma frame_pulses_ok:
  assumes "length bytes = 5"
  shows "length (frame_pulses bytes) = 84" "\<forall>c\<in>set (frame_pulses bytes). c < 255"
proof -
  have "length (concat (map (\<lambda>b. concat (map (\<lambda>k. [10 :: nat, if bit b (7 - k) then 30 else 5]) [0..<8])) bs))
        = 16 * length bs" for bs :: "int list"
    by (induction bs) (simp_all add: length_concat comp_def sum_list_triv del: upt_Suc)
  then show "length (frame_pulses bytes) = 84"
    using assms by (simp add: frame_pulses_def)
  show "\<forall>c\<in>set (frame_pulses bytes). c < 255"
    by (auto simp add: frame_pulses_def)
qed

lemma captured_frame_pulses:
  "length bytes = 5 \<Longrightarrow> captured (wave (frame_pulses bytes) PI_HIGH) = frame_pulses bytes"
  using frame_pulses_ok [of bytes] by (intro captured_wave) (simp_all add: MAX_TIMINGS_def)

text \<open>
  C1: when the captured pulses hold exactly 40 data bits, which form the bytes
  \<open>b0\<close> to \<open>b4\<close>, and \<open>b4\<close> is the low byte of \<open>b0 + b1 + b2 + b3\<close>, the attempt
  returns 0 with the humidity \<open>((b0 << 8) | b1) / 10\<close> and the temperature
  \<open>(((b2 & 0x7F) << 8) | b3) / 10\<close>, negated exactly when bit 7 of \<open>b2\<close> is set.
\<close>

theorem decode_valid_frame:
  assumes "length (data_bits (captured gpio)) = 40"
    and "frame_bytes (data_bits (captured gpio)) = [b0, b1, b2, b3, b4]"
    and "b4 = (b0 + b1 + b2 + b3) AND 255"
  shows "dht22_read_single_attempt gpio =
         Inr \<lparr>rc = 0,
              temperature =
                (if bit b2 7 then - (real_of_int (push_bit 8 (b2 AND 127) OR b3) / 10)
                 else real_of_int (push_bit 8 (b2 AND 127) OR b3) / 10),
              humidity = real_of_int (push_bit 8 b0 OR b1) / 10\<rparr>"
  using assms by (rule attempt_valid)

theorem decode_valid_frame_witness:
  "length (data_bits (captured (wave (frame_pulses [2, 140, 129, 95, 110]) PI_HIGH))) = 40 \<and>
   frame_bytes (data_bits (captured (wave (frame_pulses [2, 140, 129, 95, 110]) PI_HIGH))) =
     [2, 140, 129, 95, 110] \<and>
   (110 :: int) = (2 + 140 + 129 + 95) AND 255 \<and>
   dht22_read_single_attempt (wave (frame_pulses [2, 140, 129, 95, 110]) PI_HIGH) =
     Inr \<lparr>rc = 0, temperature = - (351 / 10), humidity = 652 / 10\<rparr>"
proof -
  let ?g = "wave (frame_pulses [2, 140, 129, 95, 110]) PI_HIGH"
  have cap: "captured ?g = frame_pulses [2, 140, 129, 95, 110]"
    by (rule captured_frame_pulses) simp
  have len: "length (data_bits (captured ?g)) = 40"
    unfolding cap by code_simp
  have bytes: "frame_bytes (data_bits (captured ?g)) = [2, 140, 129, 95, 110]"
    unfolding cap by code_simp
  have sum: "(110 :: int) = (2 + 140 + 129 + 95) AND 255"
    by simp
  have b7: "bit (129 :: int) 7"
    by (simp add: bit_iff_odd)
  have h: "push_bit 8 (2 :: int) OR 140 = 652"
    by simp
  have t: "push_bit 8 ((129 :: int) AND 127) OR 95 = 351"
    by simp
  have res: "dht22_read_single_attempt ?g =
             Inr \<lparr>rc = 0, temperature = - (351 / 10), humidity = 652 / 10\<rparr>"
    using decode_valid_frame [OF len bytes sum] by (simp only: b7 h t if_True of_int_numeral)
  show ?thesis
    by (intro conjI len bytes sum res)
qed

text \<open>
  C2, the code at a failing input. On a line that stays high the first pulse runs into
  the cap, so no data bit is captured, and the attempt returns 1, the code that a frame
  of 40 bits with a wrong checksum gets; the line of a sensor that sends the bytes
  2, 140, 1, 95 and the checksum 0 is such a frame.
\<close>

theorem timeout_returns_checksum_code:
  "data_bits (captured (\<lambda>n. PI_HIGH)) = [] \<and>
   dht22_read_single_attempt (\<lambda>n. PI_HIGH) = Inr \<lparr>rc = 1, temperature = 0, humidity = 0\<rparr> \<and>
   length (data_bits (captured (wave (frame_pulses [2, 140, 1, 95, 0]) PI_HIGH))) = 40 \<and>
   dht22_read_single_attempt (wave (frame_pulses [2, 140, 1, 95, 0]) PI_HIGH) =
     Inr \<lparr>rc = 1, temperature = 0, humidity = 0\<rparr>"
proof -
  have "captured (\<lambda>n. PI_HIGH) = []"
    by code_simp
  then have none: "data_bits (captured (\<lambda>n. PI_HIGH)) = []"
    by (simp add: data_bits_def)
  let ?g = "wave (frame_pulses [2, 140, 1, 95, 0]) PI_HIGH"
  have cap: "captured ?g = frame_pulses [2, 140, 1, 95, 0]"
    by (rule captured_frame_pulses) simp
  have len: "length (data_bits (captured ?g)) = 40"
    unfolding cap by code_simp
  have bytes: "frame_bytes (data_bits (captured ?g)) = [2, 140, 1, 95, 0]"
    unfolding cap by code_simp
  have "dht22_read_single_attempt ?g = Inr \<lparr>rc = 1, temperature = 0, humidity = 0\<rparr>"
    by (rule attempt_mismatch [OF len]) (simp add: bytes)
  moreover have "dht22_read_single_attempt (\<lambda>n. PI_HIGH) = Inr \<lparr>rc = 1, temperature = 0, humidity = 0\<rparr>"
    by (rule attempt_short) (simp add: none)
  ultimately show ?thesis using none len by simp
qed

text \<open>
  C3: when the captured pulses hold exactly 40 data bits and the fifth byte is not the
  low byte of the sum of the first four, the attempt returns 1, not 0, and both outputs
  are 0.
\<close>

theorem decode_checksum_mismatch:
  assumes "length (data_bits (captured gpio)) = 40"
    and "frame_bytes (data_bits (captured gpio)) = [b0, b1, b2, b3, b4]"
    and "b4 \<noteq> (b0 + b1 + b2 + b3) AND 255"
  shows "dht22_read_single_attempt gpio = Inr \<lparr>rc = 1, temperature = 0, humidity = 0\<rparr>"
  using attempt_mismatch [OF assms(1)] assms(2,3) by simp

theorem decode_checksum_mismatch_witness:
  "length (data_bits (captured (wave (frame_pulses [2, 140, 1, 95, 239]) PI_HIGH))) = 40 \<and>
   frame_bytes (data_bits (captured (wave (frame_pulses [2, 140, 1, 95, 239]) PI_HIGH))) =
     [2, 140, 1, 95, 239] \<and>
   (239 :: int) \<noteq> (2 + 140 + 1 + 95) AND 255 \<and>
   dht22_read_single_attempt (wave (frame_pulses [2, 140, 1, 95, 239]) PI_HIGH) =
     Inr \<lparr>rc = 1, temperature = 0, humidity = 0\<rparr>"
proof -
  let ?g = "wave (frame_pulses [2, 140, 1, 95, 239]) PI_HIGH"
  have cap: "captured ?g = frame_pulses [2, 140, 1, 95, 239]"
    by (rule captured_frame_pulses) simp
  have len: "length (data_bits (captured ?g)) = 40"
    unfolding cap by code_simp
  have bytes: "frame_bytes (data_bits (captured ?g)) = [2, 140, 1, 95, 239]"
    unfolding cap by code_simp
  have sum: "(239 :: int) \<noteq> (2 + 140 + 1 + 95) AND 255"
    by simp
  show ?thesis
    using decode_checksum_mismatch [OF len bytes sum] len bytes sum by simp
qed

text \<open>
  C4, the code at a failing input. On a line that gives 85 pulses below the cap, the
  pulse of iteration 84 is the 41st data bit: the loop shifts it into \<open>data[5]\<close>,
  outside the five bytes.
\<close>

theorem forty_first_bit_out_of_bounds:
  "captured (wave (replicate 85 1) PI_HIGH) = replicate 85 1 \<and>
   length (data_bits (captured (wave (replicate 85 1) PI_HIGH))) = 41 \<and>
   read_loop (wave (replicate 85 1) PI_HIGH) 0 capture_init = Inl ArrayOutOfBounds \<and>
   dht22_read_single_attempt (wave (replicate 85 1) PI_HIGH) = Inl ArrayOutOfBounds"
proof -
  let ?g = "wave (replicate 85 1) PI_HIGH"
  have cap: "captured ?g = replicate 85 1"
    by (rule captured_wave) (simp_all add: MAX_TIMINGS_def)
  have len: "length (data_bits (captured ?g)) = 41"
    unfolding cap by code_simp
  have "read_loop ?g 0 capture_init = Inl ArrayOutOfBounds"
    using attempt_cases [of ?g] len by simp
  then show ?thesis
    using cap len attempt_overflow [OF len] by simp
qed

text \<open>
  C9: the attempt never returns 2. Whenever it returns, the code is 0 or 1; with fewer
  than 40 data bits it returns 1, and with 40 data bits and a wrong checksum it returns
  1 as well.
\<close>

theorem return_code_never_2:
  "(\<forall>r. dht22_read_single_attempt gpio = Inr r \<longrightarrow> rc r = 0 \<or> rc r = 1) \<and>
   (length (data_bits (captured gpio)) < 40 \<longrightarrow>
      dht22_read_single_attempt gpio = Inr \<lparr>rc = 1, temperature = 0, humidity = 0\<rparr>) \<and>
   (length (data_bits (captured gpio)) = 40 \<and>
    frame_bytes (data_bits (captured gpio)) ! 4 \<noteq>
      (frame_bytes (data_bits (captured gpio)) ! 0 + frame_bytes (data_bits (captured gpio)) ! 1 +
       frame_bytes (data_bits (captured gpio)) ! 2 + frame_bytes (data_bits (captured gpio)) ! 3) AND 255 \<longrightarrow>
      dht22_read_single_attempt gpio = Inr \<lparr>rc = 1, temperature = 0, humidity = 0\<rparr>)"
proof (intro conjI allI impI)
  fix r assume "dht22_read_single_attempt gpio = Inr r"
  then show "rc r = 0 \<or> rc r = 1"
    by (auto simp add: dht22_read_single_attempt_def verify_def Let_def split: sum.splits if_splits)
qed (simp_all add: attempt_short attempt_mismatch)

theorem return_code_never_2_witness:
  "rc \<lparr>rc = 1, temperature = 0, humidity = 0\<rparr> \<in> {0, 1 :: int} \<and>
   length (data_bits (captured (\<lambda>n. PI_HIGH))) < 40 \<and>
   dht22_read_single_attempt (\<lambda>n. PI_HIGH) = Inr \<lparr>rc = 1, temperature = 0, humidity = 0\<rparr> \<and>
   length (data_bits (captured (wave (frame_pulses [0, 0, 0, 1, 0]) PI_HIGH))) = 40 \<and>
   frame_bytes (data_bits (captured (wave (frame_pulses [0, 0, 0, 1, 0]) PI_HIGH))) ! 4 \<noteq> 1 \<and>
   dht22_read_single_attempt (wave (frame_pulses [0, 0, 0, 1, 0]) PI_HIGH) =
     Inr \<lparr>rc = 1, temperature = 0, humidity = 0\<rparr>"
proof -
  have "captured (\<lambda>n. PI_HIGH) = []"
    by code_simp
  then have short: "length (data_bits (captured (\<lambda>n. PI_HIGH))) < 40"
    by (simp add: data_bits_def)
  let ?g = "wave (frame_pulses [0, 0, 0, 1, 0]) PI_HIGH"
  have cap: "captured ?g = frame_pulses [0, 0, 0, 1, 0]"
    by (rule captured_frame_pulses) simp
  have len: "length (data_bits (captured ?g)) = 40"
    unfolding cap by code_simp
  have bytes: "frame_bytes (data_bits (captured ?g)) = [0, 0, 0, 1, 0]"
    unfolding cap by code_simp
  have stuck: "dht22_read_single_attempt (\<lambda>n. PI_HIGH) = Inr \<lparr>rc = 1, temperature = 0, humidity = 0\<rparr>"
    using return_code_never_2 [of "\<lambda>n. PI_HIGH"] short by blast
  have wrong: "dht22_read_single_attempt ?g = Inr \<lparr>rc = 1, temperature = 0, humidity = 0\<rparr>"
    using return_code_never_2 [of ?g] len bytes by simp
  have codes: "rc \<lparr>rc = 1, temperature = 0, humidity = 0\<rparr> \<in> {0, 1 :: int}"
    using return_code_never_2 [of "\<lambda>n. PI_HIGH"] stuck by simp
  show ?thesis
    using codes short stuck len bytes wrong by simp
qed

section \<open>The polling thread\<close>

subsection \<open>The steps of the retry loop\<close>

lemma prepend_Inr:
  "prepend pre r = Inr (s', evs) \<longleftrightarrow> (\<exists>evs'. r = Inr (s', evs') \<and> evs = pre @ evs')"
  by (auto simp add: prepend_def split: sum.splits)

lemma retry_loop_cases [consumes 1, case_names finished stopped success sleep nosleep last]:
  assumes "retry_loop flag line a k s = Inr (s', evs)"
  obtains
    "\<not> a < MAX_READ_ATTEMPTS" "s' = s" "evs = []"
  | "a < MAX_READ_ATTEMPTS" "flag k \<noteq> 0" "s' = s" "evs = [Check_stop (flag k)]"
  | r where "a < MAX_READ_ATTEMPTS" "flag k = 0" "dht22_read_single_attempt (line a) = Inr r" "rc r = 0"
      "s' = s\<lparr>g_temperature_c := temperature r, g_humidity := humidity r, g_data_available := 1\<rparr>"
      "evs = [Check_stop 0, Attempt a 0, Publish (temperature r) (humidity r)]"
  | r evs' where "a < MAX_READ_ATTEMPTS - 1" "flag k = 0" "dht22_read_single_attempt (line a) = Inr r" "rc r \<noteq> 0"
      "flag (k + 1) = 0" "retry_loop flag line (a + 1) (k + 2) s = Inr (s', evs')"
      "evs = [Check_stop 0, Attempt a (rc r), Check_stop 0, Usleep 200000] @ evs'"
  | r evs' where "a < MAX_READ_ATTEMPTS - 1" "flag k = 0" "dht22_read_single_attempt (line a) = Inr r" "rc r \<noteq> 0"
      "flag (k + 1) \<noteq> 0" "retry_loop flag line (a + 1) (k + 2) s = Inr (s', evs')"
      "evs = [Check_stop 0, Attempt a (rc r), Check_stop (flag (k + 1))] @ evs'"
  | r evs' where "a = MAX_READ_ATTEMPTS - 1" "flag k = 0" "dht22_read_single_attempt (line a) = Inr r" "rc r \<noteq> 0"
      "retry_loop flag line (a + 1) (k + 1) s = Inr (s', evs')"
      "evs = [Check_stop 0, Attempt a (rc r)] @ evs'"
proof (cases "a < MAX_READ_ATTEMPTS")
  case False
  with assms that(1) show ?thesis by (simp add: retry_loop.simps [of flag line a])
next
  case a: True
  show ?thesis
  proof (cases "flag k = 0")
    case False
    with assms a that(2) show ?thesis by (simp add: retry_loop.simps [of flag line a])
  next
    case f: True
    show ?thesis
    proof (cases "dht22_read_single_attempt (line a)")
      case (Inl e)
      with assms a f show ?thesis by (simp add: retry_loop.simps [of flag line a])
    next
      case (Inr r)
      show ?thesis
      proof (cases "rc r = 0")
        case True
        with assms a f Inr that(3) [of r] show ?thesis
          by (simp add: retry_loop.simps [of flag line a])
      next
        case rc: False
        show ?thesis
        proof (cases "a < MAX_READ_ATTEMPTS - 1")
          case False
          with a have last: "a = MAX_READ_ATTEMPTS - 1" by simp
          from assms a f Inr rc False obtain evs' where
            "retry_loop flag line (a + 1) (k + 1) s = Inr (s', evs')"
            "evs = [Check_stop 0, Attempt a (rc r)] @ evs'"
            by (auto simp add: retry_loop.simps [of flag line a k] prepend_Inr)
          with last f Inr rc show ?thesis by (rule that(6))
        next
          case True
          show ?thesis
          proof (cases "flag (k + 1) = 0")
            case f1: True
            from assms a f Inr rc True f1 obtain evs' where
              "retry_loop flag line (a + 1) (k + 2) s = Inr (s', evs')"
              "evs = [Check_stop 0, Attempt a (rc r), Check_stop 0, Usleep 200000] @ evs'"
              by (auto simp add: retry_loop.simps [of flag line a k] prepend_Inr)
            with True f Inr rc f1 show ?thesis by (rule that(4))
          next
            case f1: False
            from assms a f Inr rc True f1 obtain evs' where
              "retry_loop flag line (a + 1) (k + 2) s = Inr (s', evs')"
              "evs = [Check_stop 0, Attempt a (rc r), Check_stop (flag (k + 1))] @ evs'"
              by (auto simp add: retry_loop.simps [of flag line a k] prepend_Inr)
            with True f Inr rc f1 show ?thesis by (rule that(5))
          qed
        qed
      qed
    qed
  qed
qed

lemma retry_loop_finished:
  assumes "retry_loop flag line a k s = Inr (s', evs)" "\<not> a < MAX_READ_ATTEMPTS"
  shows "s' = s \<and> evs = []"
  using assms by (simp add: retry_loop.simps [of flag line a])


subsection \<open>Properties of the events\<close>









lemma failure_keeps_state:
  "retry_loop flag line a k s = Inr (s', evs) \<Longrightarrow> \<not> list_ex is_success evs \<Longrightarrow> s' = s"
proof (induction n \<equiv> "MAX_READ_ATTEMPTS - a" arbitrary: a k evs)
  case 0
  then have "\<not> a < MAX_READ_ATTEMPTS" by simp
  from retry_loop_finished [OF "0.prems"(1) this] show ?case by simp
next
  case (Suc n)
  have step: "n = MAX_READ_ATTEMPTS - (a + 1)" using Suc.hyps(2) by simp
  from Suc.prems(1) show ?case
  proof (cases rule: retry_loop_cases)
    case (sleep r evs')
    from Suc.hyps(1) [OF step sleep(6)] Suc.hyps(2) Suc.prems(2) sleep(7) show ?thesis by simp
  next
    case (nosleep r evs')
    from Suc.hyps(1) [OF step nosleep(6)] Suc.hyps(2) Suc.prems(2) nosleep(7) show ?thesis by simp
  next
    case (last r evs')
    from Suc.hyps(1) [OF step last(5)] Suc.hyps(2) Suc.prems(2) last(6) show ?thesis by simp
  qed (use Suc.prems(2) in simp_all)
qed

text \<open>The loop returns unless an attempt writes outside its array.\<close>

lemma retry_loop_returns:
  assumes "\<forall>a<MAX_READ_ATTEMPTS. dht22_read_single_attempt (line a) \<noteq> Inl ArrayOutOfBounds"
  shows "\<exists>s' evs. retry_loop flag line a k s = Inr (s', evs)"
proof (induction n \<equiv> "MAX_READ_ATTEMPTS - a" arbitrary: a k)
  case 0
  then show ?case by (simp add: retry_loop.simps [of flag line a])
next
  case (Suc n)
  have step: "n = MAX_READ_ATTEMPTS - (a + 1)" using Suc.hyps(2) by simp
  have a: "a < MAX_READ_ATTEMPTS" using Suc.hyps(2) by simp
  obtain r where r: "dht22_read_single_attempt (line a) = Inr r"
  proof (cases "dht22_read_single_attempt (line a)")
    case (Inl f)
    moreover have "f = ArrayOutOfBounds" by (cases f) simp
    ultimately show ?thesis using assms a by simp
  next
    case (Inr r)
    then show ?thesis by (rule that)
  qed
  from Suc.hyps(1) [OF step, of "k + 2"] Suc.hyps(1) [OF step, of "k + 1"] a r
  show ?case
    by (auto simp add: retry_loop.simps [of flag line a k] prepend_def)
qed

lemma retry_loop_pin:
  "retry_loop flag line a k s = Inr (s', evs) \<Longrightarrow> g_gpioPin s' = g_gpioPin s"
proof (induction n \<equiv> "MAX_READ_ATTEMPTS - a" arbitrary: a k evs)
  case 0
  then have "\<not> a < MAX_READ_ATTEMPTS" by simp
  from retry_loop_finished [OF "0.prems"(1) this] show ?case by simp
next
  case (Suc n)
  have step: "n = MAX_READ_ATTEMPTS - (a + 1)" using Suc.hyps(2) by simp
  from Suc.prems show ?case
  proof (cases rule: retry_loop_cases)
    case (sleep r evs')
    from Suc.hyps(1) [OF step sleep(6)] show ?thesis .
  next
    case (nosleep r evs')
    from Suc.hyps(1) [OF step nosleep(6)] show ?thesis .
  next
    case (last r evs')
    from Suc.hyps(1) [OF step last(5)] show ?thesis .
  qed simp_all
qed

subsection \<open>Test cycles\<close>

lemma stuck_line: "dht22_read_single_attempt (\<lambda>n. PI_HIGH) = Inr \<lparr>rc = 1, temperature = 0, humidity = 0\<rparr>"
proof -
  have "captured (\<lambda>n. PI_HIGH) = []"
    by code_simp
  then show ?thesis
    by (intro attempt_short) (simp add: data_bits_def)
qed

lemma sensor_line:
  "dht22_read_single_attempt (wave (frame_pulses [2, 140, 1, 95, 238]) PI_HIGH) =
   Inr \<lparr>rc = 0, temperature = 351 / 10, humidity = 652 / 10\<rparr>"
proof -
  let ?g = "wave (frame_pulses [2, 140, 1, 95, 238]) PI_HIGH"
  have cap: "captured ?g = frame_pulses [2, 140, 1, 95, 238]"
    by (rule captured_frame_pulses) simp
  have len: "length (data_bits (captured ?g)) = 40"
    unfolding cap by code_simp
  have bytes: "frame_bytes (data_bits (captured ?g)) = [2, 140, 1, 95, 238]"
    unfolding cap by code_simp
  have sum: "(238 :: int) = (2 + 140 + 1 + 95) AND 255"
    by simp
  have b7: "\<not> bit (1 :: int) 7"
    by (simp add: bit_iff_odd)
  have h: "push_bit 8 (2 :: int) OR 140 = 652"
    by simp
  have t: "push_bit 8 ((1 :: int) AND 127) OR 95 = 351"
    by simp
  show ?thesis
    using attempt_valid [OF len bytes sum] by (simp only: b7 h t if_False of_int_numeral)
qed


lemma failed_cycle:
  "poll_cycle (\<lambda>k. 0) (\<lambda>a n. PI_HIGH) s =
   Inr (s, [Check_stop 0, Attempt 0 1, Check_stop 0, Usleep 200000,
            Check_stop 0, Attempt 1 1, Check_stop 0, Usleep 200000,
            Check_stop 0, Attempt 2 1, Check_stop 0, Usleep 200000,
            Check_stop 0, Attempt 3 1, Check_stop 0, Usleep 200000,
            Check_stop 0, Attempt 4 1])"
  by (simp add: poll_cycle_def retry_loop.simps MAX_READ_ATTEMPTS_def prepend_def stuck_line)

lemma published_cycle:
  "poll_cycle (\<lambda>k. 0) (\<lambda>a. wave (frame_pulses [2, 140, 1, 95, 238]) PI_HIGH) s =
   Inr (s\<lparr>g_temperature_c := 351 / 10, g_humidity := 652 / 10, g_data_available := 1\<rparr>,
        [Check_stop 0, Attempt 0 0, Publish (351 / 10) (652 / 10)])"
  unfolding poll_cycle_def
  by (subst retry_loop.simps) (simp add: MAX_READ_ATTEMPTS_def sensor_line)





text \<open>
  C7: a poll cycle in which no attempt returns 0 leaves the module state as it was, so
  the accessor gives afterwards what it gave before: the last published reading, or
  return code 1 when nothing has been published.
\<close>

theorem failed_cycle_keeps_cache:
  assumes "poll_cycle flag line s = Inr (s', evs)" and "\<not> list_ex is_success evs"
  shows "s' = s \<and>
         dht22_get_last_valid_reading s' out = dht22_get_last_valid_reading s out"
  using failure_keeps_state [of flag line 0 0 s s' evs] assms by (simp add: poll_cycle_def)

theorem failed_cycle_keeps_cache_witness:
  "poll_cycle (\<lambda>k. 0) (\<lambda>a n. PI_HIGH) published_state =
     Inr (published_state,
          [Check_stop 0, Attempt 0 1, Check_stop 0, Usleep 200000,
           Check_stop 0, Attempt 1 1, Check_stop 0, Usleep 200000,
           Check_stop 0, Attempt 2 1, Check_stop 0, Usleep 200000,
           Check_stop 0, Attempt 3 1, Check_stop 0, Usleep 200000,
           Check_stop 0, Attempt 4 1]) \<and>
   dht22_get_last_valid_reading published_state (0, 0) = (0, 351 / 10, 652 / 10) \<and>
   poll_cycle (\<lambda>k. 0) (\<lambda>a n. PI_HIGH) module_init =
     Inr (module_init,
          [Check_stop 0, Attempt 0 1, Check_stop 0, Usleep 200000,
           Check_stop 0, Attempt 1 1, Check_stop 0, Usleep 200000,
           Check_stop 0, Attempt 2 1, Check_stop 0, Usleep 200000,
           Check_stop 0, Attempt 3 1, Check_stop 0, Usleep 200000,
           Check_stop 0, Attempt 4 1]) \<and>
   dht22_get_last_valid_reading module_init (0, 0) = (1, 0, 0)"
proof -
  let ?evs = "[Check_stop 0, Attempt 0 1, Check_stop 0, Usleep 200000,
           Check_stop 0, Attempt 1 1, Check_stop 0, Usleep 200000,
           Check_stop 0, Attempt 2 1, Check_stop 0, Usleep 200000,
           Check_stop 0, Attempt 3 1, Check_stop 0, Usleep 200000,
           Check_stop 0, Attempt 4 1]"
  have nosucc: "\<not> list_ex is_success ?evs"
    by simp
  have r1: "dht22_get_last_valid_reading published_state (0, 0) = (0, 351 / 10, 652 / 10)"
    by (simp add: dht22_get_last_valid_reading_def published_state_def)
  have r0: "dht22_get_last_valid_reading module_init (0, 0) = (1, 0, 0)"
    by (simp add: dht22_get_last_valid_reading_def module_init_def)
  have "published_state = published_state \<and>
        dht22_get_last_valid_reading published_state (0, 0) =
        dht22_get_last_valid_reading published_state (0, 0)"
    using nosucc by (intro failed_cycle_keeps_cache [OF failed_cycle])
  then show ?thesis
    by (intro conjI failed_cycle r1 r0)
qed

section \<open>The public functions\<close>

lemma reachable_no_pin_no_data:
  "reachable s \<Longrightarrow> g_gpioPin s = - 1 \<Longrightarrow> g_data_available s = 0"
proof (induction rule: reachable.induct)
  case reach_init
  show ?case by (simp add: module_init_def)
next
  case (reach_start s gpioPin create_rc)
  then show ?case
    by (auto simp add: dht22_start_polling_def Let_def split: if_splits)
next
  case (reach_poll s flag line s' evs)
  then show ?case
    using retry_loop_pin [of flag line 0 0 s s' evs] by (simp add: poll_cycle_def)
next
  case (reach_terminate s join_rc)
  then show ?case
    by (auto simp add: dht22_terminate_def Let_def split: if_splits)
qed

lemma reachable_running: "reachable running_state"
  unfolding running_state_def by (intro reach_start reach_init)

lemma running_state_eq:
  "running_state =
   \<lparr>g_temperature_c = 0, g_humidity = 0, g_data_available = 0, g_gpioPin = 4,
    g_terminate_thread = 0, spawned = 1, cancelled = 0\<rparr>"
  by (simp add: running_state_def dht22_start_polling_def module_init_def)

lemma reachable_published: "reachable published_state"
proof -
  have "g_gpioPin running_state \<noteq> - 1"
    by (simp add: running_state_eq)
  with reachable_running show ?thesis
    unfolding published_state_def by (rule reach_poll) (rule published_cycle)
qed

text \<open>
  C5 as stated fails: with pin 4 configured, a second call returns 0, which is what a
  successful start returns, and not the error code -1.
\<close>

theorem second_start_returns_success_code:
  "g_gpioPin running_state = 4 \<and>
   fst (dht22_start_polling 17 0 running_state) = 0 \<and>
   fst (dht22_start_polling 17 0 running_state) \<noteq> - 1 \<and>
   fst (dht22_start_polling 4 0 module_init) = 0"
  by (simp add: running_state_eq dht22_start_polling_def module_init_def)

text \<open>
  C5, amended: when a pin is configured, \<^verbatim>\<open>dht22_start_polling\<close> returns 0 and leaves
  the module state as it is: no second thread is started and the configured pin stays.
\<close>

theorem second_start_unchanged:
  assumes "g_gpioPin s \<noteq> - 1"
  shows "dht22_start_polling gpioPin create_rc s = (0, s)"
  using assms by (simp add: dht22_start_polling_def)

theorem second_start_unchanged_witness:
  "g_gpioPin running_state \<noteq> - 1 \<and>
   dht22_start_polling 17 0 running_state = (0, running_state) \<and>
   spawned (snd (dht22_start_polling 17 0 running_state)) = 1 \<and>
   g_gpioPin (snd (dht22_start_polling 17 0 running_state)) = 4"
proof -
  have pin: "g_gpioPin running_state \<noteq> - 1"
    by (simp add: running_state_eq)
  show ?thesis
    using second_start_unchanged [OF pin, of 17 0] pin by (simp add: running_state_eq)
qed

text \<open>
  C8: in every reachable state, after \<^verbatim>\<open>dht22_terminate\<close>, whatever the join
  returned, no data is available, no pin is configured and the accessor returns 1
  without a reading; and when no pin is configured the call changes nothing.
\<close>

theorem terminate_resets:
  assumes "reachable s"
  shows "g_data_available (dht22_terminate join_rc s) = 0 \<and>
         g_gpioPin (dht22_terminate join_rc s) = - 1 \<and>
         dht22_get_last_valid_reading (dht22_terminate join_rc s) out = (1, out) \<and>
         (g_gpioPin s = - 1 \<longrightarrow> dht22_terminate join_rc s = s)"
  using reachable_no_pin_no_data [OF assms]
  by (auto simp add: dht22_terminate_def dht22_get_last_valid_reading_def Let_def)

theorem terminate_resets_witness:
  "dht22_get_last_valid_reading published_state (0, 0) = (0, 351 / 10, 652 / 10) \<and>
   g_data_available (dht22_terminate 0 published_state) = 0 \<and>
   g_gpioPin (dht22_terminate 0 published_state) = - 1 \<and>
   dht22_get_last_valid_reading (dht22_terminate 0 published_state) (0, 0) = (1, 0, 0) \<and>
   g_data_available (dht22_terminate 110 published_state) = 0 \<and>
   g_gpioPin (dht22_terminate 110 published_state) = - 1 \<and>
   cancelled (dht22_terminate 110 published_state) = 1 \<and>
   dht22_get_last_valid_reading (dht22_terminate 110 published_state) (0, 0) = (1, 0, 0) \<and>
   g_gpioPin module_init = - 1 \<and>
   dht22_terminate 0 module_init = module_init"
proof -
  have r1: "dht22_get_last_valid_reading published_state (0, 0) = (0, 351 / 10, 652 / 10)"
    by (simp add: dht22_get_last_valid_reading_def published_state_def)
  have c: "cancelled (dht22_terminate 110 published_state) = 1"
    by (simp add: dht22_terminate_def published_state_def running_state_eq)
  have pin0: "g_gpioPin module_init = - 1"
    by (simp add: module_init_def)
  from terminate_resets [OF reachable_published, of 0 "(0, 0)"]
       terminate_resets [OF reachable_published, of 110 "(0, 0)"]
       terminate_resets [OF reach_init, of 0 "(0, 0)"] r1 c pin0
  show ?thesis by simp
qed




end
